theory Spec2Isabelle
  imports Main "HOL-Library.Word"
begin

unbundle bit_operations_syntax

section \<open>The predicates of the benchmark\<close>

text \<open>
  \<^verbatim>\<open>struct PredCheap { bool operator()(int x) const noexcept { return (x & 1) == 0; } };\<close>
  The argument is a 32-bit \<^verbatim>\<open>int\<close>; the test looks at its lowest bit only.
\<close>

definition PredCheap :: "32 word \<Rightarrow> bool" where
  "PredCheap x = (x AND 1 = 0)"

section \<open>Sequences, iterators and \<^verbatim>\<open>std::count_if\<close>\<close>

text \<open>
  The sequence \<^verbatim>\<open>[first, last)\<close> is a list; an iterator into it is its distance from
  \<^verbatim>\<open>first\<close>, a natural number. \<^verbatim>\<open>std::next(it, d)\<close> is \<open>it + d\<close>, and the elements
  of the iterator range \<^verbatim>\<open>[a, b)\<close> are \<open>subrange xs a b\<close>.

  \<^verbatim>\<open>std::count_if\<close> is the library's loop
  \<^verbatim>\<open>for (; first != last; ++first) if (pred(*first)) ++ret; return ret;\<close>
  with \<^verbatim>\<open>ret\<close> starting at 0.
\<close>

definition subrange :: "'a list \<Rightarrow> nat \<Rightarrow> nat \<Rightarrow> 'a list" where
  "subrange xs a b = take (b - a) (drop a xs)"

fun count_if_loop :: "'a list \<Rightarrow> ('a \<Rightarrow> bool) \<Rightarrow> nat \<Rightarrow> nat" where
  "count_if_loop [] pred ret = ret"
| "count_if_loop (x # xs) pred ret = count_if_loop xs pred (if pred x then ret + 1 else ret)"

definition count_if :: "'a list \<Rightarrow> ('a \<Rightarrow> bool) \<Rightarrow> nat" where
  "count_if xs pred = count_if_loop xs pred 0"

text \<open>\<^verbatim>\<open>std::accumulate(results.begin(), results.end(), size_t(0))\<close>: a left fold of \<open>+\<close>.\<close>

definition accumulate :: "nat list \<Rightarrow> nat \<Rightarrow> nat" where
  "accumulate results init = foldl (+) init results"

section \<open>The partitioning loop of \<^verbatim>\<open>parallel_count_if_custom\<close>\<close>

text \<open>
  Each thread is created from a closure that captures \<^verbatim>\<open>chunk_start\<close>, \<^verbatim>\<open>chunk_end\<close> and
  the loop index \<^verbatim>\<open>i\<close> by value (and \<^verbatim>\<open>pred\<close>, \<^verbatim>\<open>results\<close> by reference). A \<open>task\<close> is
  that closure: the half-open index range it scans and the slot of \<^verbatim>\<open>results\<close> it writes.
\<close>

record task =
  task_start :: nat
  task_end :: nat
  task_i :: nat

definition task_size :: "task \<Rightarrow> nat" where
  "task_size t = task_end t - task_start t"

definition task_range :: "task \<Rightarrow> nat set" where
  "task_range t = {task_start t ..< task_end t}"

text \<open>
  The loop of lines 45 to 52:
  \<^verbatim>\<open>
  for (size_t i = 0; i < K; ++i) {
      auto this_chunk = chunk_size + (i < rem ? 1 : 0);
      It chunk_end = std::next(chunk_start, this_chunk);
      threads.emplace_back([chunk_start, chunk_end, &pred, &results, i]() { ... });
      chunk_start = chunk_end;
  }
  \<close>
  returning the vector \<^verbatim>\<open>threads\<close> it builds, in the order of creation.
\<close>

function spawn_loop :: "nat \<Rightarrow> nat \<Rightarrow> nat \<Rightarrow> nat \<Rightarrow> nat \<Rightarrow> task list" where
  "spawn_loop chunk_size rem K i chunk_start =
     (if i < K then
        (let this_chunk = chunk_size + (if i < rem then 1 else 0);
             chunk_end = chunk_start + this_chunk
         in \<lparr>task_start = chunk_start, task_end = chunk_end, task_i = i\<rparr>
            # spawn_loop chunk_size rem K (i + 1) chunk_end)
      else [])"
  by pat_completeness auto
termination
  by (relation "measure (\<lambda>(chunk_size, rem, K, i, chunk_start). K - i)") auto

declare spawn_loop.simps [simp del]

text \<open>
  Lines 41 to 43 and the loop: \<^verbatim>\<open>chunk_size = n / K\<close>, \<^verbatim>\<open>rem = n % K\<close>,
  \<^verbatim>\<open>chunk_start = first\<close>. The quotient and the remainder are taken in \<^verbatim>\<open>size_t\<close>; as
  \<open>n\<close> is positive there and every value computed is at most \<open>n\<close>, nothing wraps, and
  the natural numbers model the arithmetic exactly.
\<close>

definition partition_step :: "nat \<Rightarrow> nat \<Rightarrow> task list" where
  "partition_step n K = spawn_loop (n div K) (n mod K) K 0 0"

section \<open>Running the threads in the order of their creation\<close>

text \<open>
  The body of thread \<open>i\<close>:
  \<^verbatim>\<open>results[i] = std::count_if(chunk_start, chunk_end, pred);\<close>
\<close>

definition run_task :: "'a list \<Rightarrow> ('a \<Rightarrow> bool) \<Rightarrow> task \<Rightarrow> nat list \<Rightarrow> nat list" where
  "run_task xs pred t results =
     results[task_i t := count_if (subrange xs (task_start t) (task_end t)) pred]"

text \<open>
  \<^verbatim>\<open>for (auto &t : threads) t.join();\<close> In this first model every thread runs to
  completion, one after the other in the order of \<^verbatim>\<open>threads\<close>. The section on schedules
  below lets the threads interleave.
\<close>

fun join_all :: "'a list \<Rightarrow> ('a \<Rightarrow> bool) \<Rightarrow> task list \<Rightarrow> nat list \<Rightarrow> nat list" where
  "join_all xs pred [] results = results"
| "join_all xs pred (t # threads) results = join_all xs pred threads (run_task xs pred t results)"

text \<open>The vector \<^verbatim>\<open>results\<close> after the joins (lines 38 to 53), for \<open>n > 0\<close> and \<open>K > 1\<close>.\<close>

definition results_after_join :: "'a list \<Rightarrow> ('a \<Rightarrow> bool) \<Rightarrow> nat \<Rightarrow> nat list" where
  "results_after_join xs pred K =
     join_all xs pred (partition_step (length xs) K) (replicate K 0)"

definition parallel_count_if_custom :: "'a list \<Rightarrow> ('a \<Rightarrow> bool) \<Rightarrow> nat \<Rightarrow> nat" where
  "parallel_count_if_custom xs pred K =
     (let n = length xs in
      if n \<le> 0 then 0
      else if K \<le> 1 then count_if xs pred
      else accumulate (results_after_join xs pred K) 0)"

section \<open>Threads that interleave\<close>

text \<open>
  A thread that has been created is either still inside \<^verbatim>\<open>std::count_if\<close>, with the
  slot it will write, the elements between its iterator and \<^verbatim>\<open>chunk_end\<close>, and its local
  counter \<^verbatim>\<open>ret\<close>; or it has stored its count and ended.
\<close>

datatype 'a worker = Running nat "'a list" nat | Finished

record 'a pool =
  pool_threads :: "'a worker list"
  pool_results :: "nat list"

definition start_thread :: "'a list \<Rightarrow> task \<Rightarrow> 'a worker" where
  "start_thread xs t = Running (task_i t) (subrange xs (task_start t) (task_end t)) 0"

text \<open>
  One step of one thread: an iteration of the loop of \<^verbatim>\<open>std::count_if\<close> (which reads the
  shared sequence and changes the thread's own counter only), or, when the iterator has
  reached \<^verbatim>\<open>chunk_end\<close>, the store \<^verbatim>\<open>results[i] = ret\<close>, after which the thread has ended.
\<close>

fun thread_step :: "('a \<Rightarrow> bool) \<Rightarrow> 'a worker \<Rightarrow> nat list \<Rightarrow> 'a worker \<times> nat list" where
  "thread_step pred (Running i [] ret) results = (Finished, results[i := ret])"
| "thread_step pred (Running i (x # xs) ret) results =
     (Running i xs (if pred x then ret + 1 else ret), results)"
| "thread_step pred Finished results = (Finished, results)"

text \<open>
  A schedule is the list of the thread numbers in the order in which the scheduler lets
  them take a step. Choosing a thread that has ended, or a number that is no thread,
  changes nothing. All \<open>K\<close> threads are there from the start: creating the later threads
  writes only the loop's own variables and \<^verbatim>\<open>threads\<close>, which no thread reads.
\<close>

definition sched_step :: "('a \<Rightarrow> bool) \<Rightarrow> nat \<Rightarrow> 'a pool \<Rightarrow> 'a pool" where
  "sched_step pred j st =
     (if j < length (pool_threads st) then
        (case thread_step pred (pool_threads st ! j) (pool_results st) of
           (w, results) \<Rightarrow> \<lparr>pool_threads = (pool_threads st)[j := w], pool_results = results\<rparr>)
      else st)"

fun run_schedule :: "('a \<Rightarrow> bool) \<Rightarrow> nat list \<Rightarrow> 'a pool \<Rightarrow> 'a pool" where
  "run_schedule pred [] st = st"
| "run_schedule pred (j # sched) st = run_schedule pred sched (sched_step pred j st)"

text \<open>The joins return once every thread has ended.\<close>

definition all_joined :: "'a pool \<Rightarrow> bool" where
  "all_joined st = list_all (\<lambda>w. w = Finished) (pool_threads st)"

text \<open>
  \<^verbatim>\<open>parallel_count_if_custom\<close> under a schedule. The result is \<open>None\<close> when the schedule
  ends before all the threads have: it is then only the beginning of an execution.
\<close>

definition parallel_count_if_custom_sched ::
    "'a list \<Rightarrow> ('a \<Rightarrow> bool) \<Rightarrow> nat \<Rightarrow> nat list \<Rightarrow> nat option" where
  "parallel_count_if_custom_sched xs pred K sched =
     (let n = length xs in
      if n \<le> 0 then Some 0
      else if K \<le> 1 then Some (count_if xs pred)
      else
        (let st = run_schedule pred sched
                    \<lparr>pool_threads = map (start_thread xs) (partition_step n K),
                     pool_results = replicate K 0\<rparr>
         in if all_joined st then Some (accumulate (pool_results st) 0) else None))"

text \<open>
  A schedule is fair enough for \<open>n\<close> elements and \<open>K\<close> threads when it gives every thread at
  least as many steps as the thread needs: one for each element of its chunk and one for
  the store.
\<close>

definition enough_steps :: "nat \<Rightarrow> nat \<Rightarrow> nat list \<Rightarrow> bool" where
  "enough_steps n K sched =
     list_all (\<lambda>t. task_size t + 1 \<le> count_list sched (task_i t)) (partition_step n K)"

section \<open>A predicate that throws\<close>

text \<open>
  A predicate that may throw returns \<open>None\<close> where it throws. \<^verbatim>\<open>std::count_if\<close> lets the
  exception through at the first such element.
\<close>

fun count_if_loop_exn :: "'a list \<Rightarrow> ('a \<Rightarrow> bool option) \<Rightarrow> nat \<Rightarrow> nat option" where
  "count_if_loop_exn [] pred ret = Some ret"
| "count_if_loop_exn (x # xs) pred ret =
     (case pred x of
        None \<Rightarrow> None
      | Some b \<Rightarrow> count_if_loop_exn xs pred (if b then ret + 1 else ret))"

definition count_if_exn :: "'a list \<Rightarrow> ('a \<Rightarrow> bool option) \<Rightarrow> nat option" where
  "count_if_exn xs pred = count_if_loop_exn xs pred 0"

text \<open>
  The thread's function has no handler: an exception that leaves it ends the program
  through \<^verbatim>\<open>std::terminate\<close>. \<open>None\<close> is that end.
\<close>

definition run_task_exn ::
    "'a list \<Rightarrow> ('a \<Rightarrow> bool option) \<Rightarrow> task \<Rightarrow> nat list \<Rightarrow> nat list option" where
  "run_task_exn xs pred t results =
     (case count_if_exn (subrange xs (task_start t) (task_end t)) pred of
        None \<Rightarrow> None
      | Some c \<Rightarrow> Some (results[task_i t := c]))"

fun join_all_exn ::
    "'a list \<Rightarrow> ('a \<Rightarrow> bool option) \<Rightarrow> task list \<Rightarrow> nat list \<Rightarrow> nat list option" where
  "join_all_exn xs pred [] results = Some results"
| "join_all_exn xs pred (t # threads) results =
     (case run_task_exn xs pred t results of
        None \<Rightarrow> None
      | Some results' \<Rightarrow> join_all_exn xs pred threads results')"

text \<open>
  What a call of \<^verbatim>\<open>parallel_count_if_custom\<close> comes to: it returns a count, or an
  exception reaches its caller, or the program is terminated.
\<close>

datatype outcome = Returned nat | Thrown | Terminated

definition parallel_count_if_custom_exn ::
    "'a list \<Rightarrow> ('a \<Rightarrow> bool option) \<Rightarrow> nat \<Rightarrow> outcome" where
  "parallel_count_if_custom_exn xs pred K =
     (let n = length xs in
      if n \<le> 0 then Returned 0
      else if K \<le> 1 then
        (case count_if_exn xs pred of None \<Rightarrow> Thrown | Some c \<Rightarrow> Returned c)
      else
        (case join_all_exn xs pred (partition_step n K) (replicate K 0) of
           None \<Rightarrow> Terminated
         | Some results \<Rightarrow> Returned (accumulate results 0)))"

section \<open>The timing harness\<close>

text \<open>
  The harness has two effects: it reads the clock and it runs the measured operation. The
  state of the world that it acts on holds both. The clock is the sequence of the time
  points, in ticks, that successive calls of \<^verbatim>\<open>hrclock::now()\<close> return, with the number of
  the readings taken so far; any sequence is allowed, so that a run of the operation may
  take any time. The operation is a closure of no argument that returns a count: a
  function from the state it works on to its count and the state it leaves.
\<close>

record 's world =
  clock :: "nat \<Rightarrow> int"
  reads :: nat
  op_state :: 's

definition now :: "'s world \<Rightarrow> int \<times> 's world" where
  "now w = (clock w (reads w), w\<lparr>reads := reads w + 1\<rparr>)"

definition call :: "('s \<Rightarrow> nat \<times> 's) \<Rightarrow> 's world \<Rightarrow> nat \<times> 's world" where
  "call f w = (case f (op_state w) of (cnt, s) \<Rightarrow> (cnt, w\<lparr>op_state := s\<rparr>))"

text \<open>
  \<^verbatim>\<open>elapsed_ms(a, b)\<close> is \<^verbatim>\<open>duration_cast<ms>(b - a).count()\<close>. The model keeps the
  duration \<^verbatim>\<open>b - a\<close> in ticks; the source rescales it to milliseconds, which does not
  change the order of two durations.
\<close>

definition elapsed_ms :: "int \<Rightarrow> int \<Rightarrow> int" where
  "elapsed_ms a b = b - a"

text \<open>
  \<^verbatim>\<open>
  auto t0 = hrclock::now();
  size_t cnt = f();
  auto t1 = hrclock::now();
  return {cnt, elapsed_ms(t0, t1)};
  \<close>
\<close>

definition time_once :: "('s \<Rightarrow> nat \<times> 's) \<Rightarrow> 's world \<Rightarrow> (nat \<times> int) \<times> 's world" where
  "time_once f w =
     (case now w of (t0, w1) \<Rightarrow>
      case call f w1 of (cnt, w2) \<Rightarrow>
      case now w2 of (t1, w3) \<Rightarrow> ((cnt, elapsed_ms t0 t1), w3))"

text \<open>
  The loop of \<^verbatim>\<open>time_repeat\<close>:
  \<^verbatim>\<open>
  for (int i = 0; i < reps; ++i) {
      auto r = time_once(f);
      last_count = r.first;
      times.push_back(r.second);
  }
  \<close>
\<close>

function time_repeat_loop ::
    "('s \<Rightarrow> nat \<times> 's) \<Rightarrow> int \<Rightarrow> int \<Rightarrow> nat \<Rightarrow> int list \<Rightarrow> 's world
       \<Rightarrow> nat \<times> int list \<times> 's world" where
  "time_repeat_loop f reps i last_count tms w =
     (if i < reps then
        (case time_once f w of
           (r, w') \<Rightarrow> time_repeat_loop f reps (i + 1) (fst r) (tms @ [snd r]) w')
      else (last_count, tms, w))"
  by pat_completeness auto
termination
  by (relation "measure (\<lambda>(f, reps, i, last_count, tms, w). nat (reps - i))") auto

declare time_repeat_loop.simps [simp del]

text \<open>
  \<^verbatim>\<open>times.reserve(reps)\<close> converts a negative \<open>reps\<close> to a size beyond \<^verbatim>\<open>max_size()\<close> and
  throws \<^verbatim>\<open>std::length_error\<close>; with \<open>reps = 0\<close> the vector stays empty and
  \<^verbatim>\<open>times[times.size() / 2]\<close> reads out of range. Otherwise the function returns the pair of
  \<^verbatim>\<open>last_count\<close> and \<^verbatim>\<open>times[times.size() / 2]\<close> after \<^verbatim>\<open>std::sort\<close>; the model returns
  the world it leaves as well.
\<close>

datatype time_error = LengthError | OutOfRange

definition time_repeat ::
    "('s \<Rightarrow> nat \<times> 's) \<Rightarrow> int \<Rightarrow> 's world \<Rightarrow> time_error + (nat \<times> int) \<times> 's world" where
  "time_repeat f reps w =
     (if reps < 0 then Inl LengthError
      else
        (case time_repeat_loop f reps 0 0 [] w of
           (last_count, tms, w') \<Rightarrow>
             (let sorted_times = sort tms in
              if length sorted_times div 2 < length sorted_times
              then Inr ((last_count, sorted_times ! (length sorted_times div 2)), w')
              else Inl OutOfRange)))"





section \<open>The bounds of the chunks in closed form\<close>

text \<open>
  The value of \<^verbatim>\<open>chunk_start\<close> when the loop index is \<open>k\<close>: \<open>k\<close> chunks of \<open>chunk_size\<close>
  elements and one more element for each of the first \<open>rem\<close> of them.
\<close>

definition chunk_bound :: "nat \<Rightarrow> nat \<Rightarrow> nat \<Rightarrow> nat" where
  "chunk_bound chunk_size rem k = k * chunk_size + min k rem"

text \<open>The count that the thread of chunk \<open>k\<close> stores.\<close>

definition chunk_count :: "'a list \<Rightarrow> ('a \<Rightarrow> bool) \<Rightarrow> nat \<Rightarrow> nat \<Rightarrow> nat \<Rightarrow> nat" where
  "chunk_count xs pred c r k =
     count_if (subrange xs (chunk_bound c r k) (chunk_bound c r (Suc k))) pred"

section \<open>Auxiliary notions for the proofs about schedules\<close>

text \<open>
  What holds of thread \<open>j\<close>, whose chunk has \<open>c\<close> matches, at every moment: while it runs, it
  is bound to slot \<open>j\<close> and its counter and the matches still ahead of it add up to \<open>c\<close>; once
  it has ended, slot \<open>j\<close> holds \<open>c\<close>.
\<close>

definition thread_ok :: "('a \<Rightarrow> bool) \<Rightarrow> nat list \<Rightarrow> nat \<Rightarrow> nat \<Rightarrow> 'a worker \<Rightarrow> bool" where
  "thread_ok pred results j c w =
     (case w of
        Running i ys ret \<Rightarrow> i = j \<and> ret + length (filter pred ys) = c
      | Finished \<Rightarrow> results ! j = c)"

definition pool_inv :: "('a \<Rightarrow> bool) \<Rightarrow> nat list \<Rightarrow> 'a pool \<Rightarrow> bool" where
  "pool_inv pred cs st =
     (length (pool_threads st) = length cs \<and> length (pool_results st) = length cs \<and>
      (\<forall>j < length cs. thread_ok pred (pool_results st) j (cs ! j) (pool_threads st ! j)))"

text \<open>The number of steps that a thread still has to take.\<close>

definition steps_left :: "'a worker \<Rightarrow> nat" where
  "steps_left w = (case w of Running i ys ret \<Rightarrow> length ys + 1 | Finished \<Rightarrow> 0)"

text \<open>A schedule that interleaves the threads: \<open>n + 1\<close> rounds, one step of each per round.\<close>

definition round_robin :: "nat \<Rightarrow> nat \<Rightarrow> nat list" where
  "round_robin n K = concat (replicate (n + 1) [0..<K])"

section \<open>Properties of the counting loop\<close>

lemma count_if_loop_filter: "count_if_loop xs pred ret = ret + length (filter pred xs)"
  by (induction xs arbitrary: ret) auto

lemma count_if_filter: "count_if xs pred = length (filter pred xs)"
  by (simp add: count_if_def count_if_loop_filter)

lemma accumulate_sum_list: "accumulate results init = init + sum_list results"
  by (induction results arbitrary: init) (auto simp: accumulate_def)

section \<open>Properties of the partitioning loop\<close>

lemma chunk_bound_0: "chunk_bound c r 0 = 0"
  by (simp add: chunk_bound_def)

lemma chunk_bound_Suc: "chunk_bound c r (Suc k) = chunk_bound c r k + (c + (if k < r then 1 else 0))"
  by (simp add: chunk_bound_def min_def)

lemma chunk_bound_mono: "i \<le> j \<Longrightarrow> chunk_bound c r i \<le> chunk_bound c r j"
  unfolding chunk_bound_def by (intro add_mono mult_le_mono1 min.mono) simp_all

lemma chunk_bound_last: "0 < K \<Longrightarrow> chunk_bound (n div K) (n mod K) K = n"
proof -
  assume "0 < K"
  then have "n mod K \<le> K" by (simp add: less_imp_le)
  then show ?thesis by (simp add: chunk_bound_def min_absorb2)
qed

lemma spawn_loop_closed:
  "i \<le> K \<Longrightarrow> spawn_loop c r K i (chunk_bound c r i) =
     map (\<lambda>k. \<lparr>task_start = chunk_bound c r k, task_end = chunk_bound c r (Suc k), task_i = k\<rparr>) [i..<K]"
proof (induction "K - i" arbitrary: i)
  case 0
  then show ?case by (simp add: spawn_loop.simps)
next
  case (Suc d)
  then have lt: "i < K" and d: "d = K - Suc i" and le: "Suc i \<le> K" by simp_all
  have "spawn_loop c r K (Suc i) (chunk_bound c r (Suc i)) =
     map (\<lambda>k. \<lparr>task_start = chunk_bound c r k, task_end = chunk_bound c r (Suc k), task_i = k\<rparr>) [Suc i..<K]"
    using Suc.hyps(1) [OF d le] .
  then show ?case
    using lt by (subst spawn_loop.simps) (simp add: upt_conv_Cons chunk_bound_Suc Let_def add.assoc)
qed

lemma partition_step_closed:
  "partition_step n K =
     map (\<lambda>k. \<lparr>task_start = chunk_bound (n div K) (n mod K) k,
               task_end = chunk_bound (n div K) (n mod K) (Suc k), task_i = k\<rparr>) [0..<K]"
  using spawn_loop_closed [of 0 K "n div K" "n mod K"]
  by (simp add: partition_step_def chunk_bound_0)


lemma join_all_append:
  "join_all xs pred (ts @ us) results = join_all xs pred us (join_all xs pred ts results)"
  by (induction ts arbitrary: results) simp_all

lemma join_all_prefix:
  "m \<le> K \<Longrightarrow>
   join_all xs pred
     (map (\<lambda>k. \<lparr>task_start = chunk_bound c r k, task_end = chunk_bound c r (Suc k), task_i = k\<rparr>) [0..<m])
     (replicate K 0) =
   map (chunk_count xs pred c r) [0..<m] @ replicate (K - m) 0"
proof (induction m)
  case 0
  then show ?case by simp
next
  case (Suc m)
  then have "m < K" by simp
  then have rep: "replicate (K - m) (0::nat) = 0 # replicate (K - Suc m) 0"
    by (cases "K - m") (simp_all add: Suc_diff_Suc)
  show ?case
    using Suc by (simp add: join_all_append run_task_def list_update_append rep chunk_count_def)
qed

lemma results_after_join_closed:
  "results_after_join xs pred K =
     map (chunk_count xs pred (length xs div K) (length xs mod K)) [0..<K]"
  using join_all_prefix [of K K xs pred "length xs div K" "length xs mod K"]
  by (simp add: results_after_join_def partition_step_closed)

lemma subrange_append:
  "a \<le> b \<Longrightarrow> take b xs = take a xs @ subrange xs a b"
  using take_add [of a "b - a" xs] by (simp add: subrange_def)

lemma sum_chunk_counts:
  "sum_list (map (chunk_count xs pred c r) [0..<m]) =
     length (filter pred (take (chunk_bound c r m) xs))"
proof (induction m)
  case 0
  then show ?case by (simp add: chunk_bound_0)
next
  case (Suc m)
  have "chunk_bound c r m \<le> chunk_bound c r (Suc m)"
    by (rule chunk_bound_mono) simp
  from subrange_append [OF this, of xs] Suc show ?case
    by (simp add: chunk_count_def count_if_filter)
qed

lemma sum_results_after_join:
  assumes "0 < K"
  shows "sum_list (results_after_join xs pred K) = length (filter pred xs)"
  using assms
  by (simp add: results_after_join_closed sum_chunk_counts chunk_bound_last)

lemma parallel_count_if_custom_filter:
  "parallel_count_if_custom xs pred K = length (filter pred xs)"
  by (simp add: parallel_count_if_custom_def Let_def count_if_filter accumulate_sum_list
      sum_results_after_join)

lemma chunk_count_le:
  "chunk_count xs pred c r k \<le> chunk_bound c r (Suc k) - chunk_bound c r k"
proof -
  have "length (filter pred (subrange xs (chunk_bound c r k) (chunk_bound c r (Suc k))))
      \<le> length (subrange xs (chunk_bound c r k) (chunk_bound c r (Suc k)))"
    by (rule length_filter_le)
  also have "\<dots> \<le> chunk_bound c r (Suc k) - chunk_bound c r k"
    by (simp add: subrange_def)
  finally show ?thesis by (simp add: chunk_count_def count_if_filter)
qed

lemma length_partition_step: "length (partition_step n K) = K"
  by (simp add: partition_step_closed)

lemma nth_partition_step:
  "i < K \<Longrightarrow> partition_step n K ! i =
     \<lparr>task_start = chunk_bound (n div K) (n mod K) i,
      task_end = chunk_bound (n div K) (n mod K) (Suc i), task_i = i\<rparr>"
  by (simp add: partition_step_closed)

lemma union_chunks:
  "(\<Union>k\<in>{0..<m}. {chunk_bound c r k ..< chunk_bound c r (Suc k)}) = {0 ..< chunk_bound c r m}"
proof (induction m)
  case 0
  then show ?case by (simp add: chunk_bound_0)
next
  case (Suc m)
  have "chunk_bound c r m \<le> chunk_bound c r (Suc m)"
    by (rule chunk_bound_mono) simp
  then have "{0 ..< chunk_bound c r m} \<union> {chunk_bound c r m ..< chunk_bound c r (Suc m)}
           = {0 ..< chunk_bound c r (Suc m)}"
    by (intro ivl_disj_un_two) simp_all
  with Suc show ?case
    by (simp add: atLeast0_lessThan_Suc Un_commute)
qed

lemma union_partition_step:
  assumes "0 < K"
  shows "(\<Union>t\<in>set (partition_step n K). task_range t) = {0..<n}"
proof -
  have "(\<Union>t\<in>set (partition_step n K). task_range t) =
        (\<Union>k\<in>{0..<K}. {chunk_bound (n div K) (n mod K) k ..< chunk_bound (n div K) (n mod K) (Suc k)})"
    by (simp add: partition_step_closed task_range_def)
  with assms show ?thesis
    by (simp add: union_chunks chunk_bound_last)
qed

lemma disjoint_chunks:
  assumes "i < j"
  shows "{chunk_bound c r i ..< chunk_bound c r (Suc i)} \<inter> {chunk_bound c r j ..< chunk_bound c r (Suc j)} = {}"
proof -
  from assms have "chunk_bound c r (Suc i) \<le> chunk_bound c r j"
    by (intro chunk_bound_mono) simp
  then show ?thesis by auto
qed

lemma sorted_starts: "sorted (map task_start (partition_step n K))"
  by (simp add: sorted_iff_nth_mono partition_step_closed chunk_bound_mono)

text \<open>
  Claim C2. For every \<open>N \<ge> 0\<close> and every \<open>K \<ge> 1\<close> the partitioning step yields \<open>K\<close> index
  ranges that are ordered by their start, contiguous (the first starts at 0, each one
  ends where the next one starts, the last ends at \<open>N\<close>), pairwise disjoint, and whose
  union is exactly \<open>[0, N)\<close>.
\<close>

theorem partition_coverage:
  assumes "1 \<le> K"
  shows "length (partition_step N K) = K
       \<and> sorted (map task_start (partition_step N K))
       \<and> task_start (partition_step N K ! 0) = 0
       \<and> (\<forall>i. Suc i < K \<longrightarrow>
             task_end (partition_step N K ! i) = task_start (partition_step N K ! Suc i))
       \<and> task_end (partition_step N K ! (K - 1)) = N
       \<and> (\<forall>i j. i < j \<and> j < K \<longrightarrow>
             task_range (partition_step N K ! i) \<inter> task_range (partition_step N K ! j) = {})
       \<and> (\<Union>t\<in>set (partition_step N K). task_range t) = {0..<N}"
proof (intro conjI allI impI)
  show "length (partition_step N K) = K"
    by (rule length_partition_step)
  show "sorted (map task_start (partition_step N K))"
    by (rule sorted_starts)
  show "task_start (partition_step N K ! 0) = 0"
    using assms by (simp add: nth_partition_step chunk_bound_0)
  show "task_end (partition_step N K ! i) = task_start (partition_step N K ! Suc i)"
    if "Suc i < K" for i
    using that by (simp add: nth_partition_step)
  show "task_end (partition_step N K ! (K - 1)) = N"
    using assms by (simp add: nth_partition_step chunk_bound_last)
  show "task_range (partition_step N K ! i) \<inter> task_range (partition_step N K ! j) = {}"
    if "i < j \<and> j < K" for i j
    using that disjoint_chunks [of i j "N div K" "N mod K"]
    by (simp add: nth_partition_step task_range_def)
  show "(\<Union>t\<in>set (partition_step N K). task_range t) = {0..<N}"
    using assms by (simp add: union_partition_step)
qed

lemma partition_step_10_3:
  "partition_step 10 3 =
     [\<lparr>task_start = 0, task_end = 4, task_i = 0\<rparr>,
      \<lparr>task_start = 4, task_end = 7, task_i = 1\<rparr>,
      \<lparr>task_start = 7, task_end = 10, task_i = 2\<rparr>]"
  by (simp add: partition_step_closed chunk_bound_def upt_rec)

theorem partition_coverage_witness:
  "(1::nat) \<le> 3
   \<and> map task_range (partition_step 10 3) = [{0..<4}, {4..<7}, {7..<10}]
   \<and> {0..<4} \<union> {4..<7} \<union> {7..<10} = {0..<(10::nat)}
   \<and> {0..<4} \<inter> {4..<7} = ({}::nat set) \<and> {0..<4} \<inter> {7..<10} = ({}::nat set)
   \<and> {4..<7} \<inter> {7..<10} = ({}::nat set)"
  using partition_coverage [of 3 10]
  by (simp add: partition_step_10_3 task_range_def Un_assoc)

lemma chunk_size_closed:
  "chunk_bound c r (Suc k) - chunk_bound c r k = c + (if k < r then 1 else 0)"
  by (simp add: chunk_bound_Suc)

lemma partition_step_sizes:
  assumes "0 < K"
  shows "map task_size (partition_step N K) =
           replicate (N mod K) (N div K + 1) @ replicate (K - N mod K) (N div K)"
proof (rule nth_equalityI)
  from assms have r: "N mod K \<le> K" by (simp add: less_imp_le)
  then show len: "length (map task_size (partition_step N K)) =
      length (replicate (N mod K) (N div K + 1) @ replicate (K - N mod K) (N div K))"
    by (simp add: length_partition_step)
  fix i
  assume "i < length (map task_size (partition_step N K))"
  then have i: "i < K" by (simp add: length_partition_step)
  then show "map task_size (partition_step N K) ! i =
      (replicate (N mod K) (N div K + 1) @ replicate (K - N mod K) (N div K)) ! i"
    by (simp add: length_partition_step nth_partition_step task_size_def chunk_size_closed
        nth_append)
qed

text \<open>
  Claim C3. For every \<open>N \<ge> 0\<close> and \<open>K \<ge> 2\<close>, with \<open>base = N div K\<close> and
  \<open>remainder = N mod K\<close>, the first \<open>remainder\<close> partitions have size \<open>base + 1\<close> and the
  other \<open>K - remainder\<close> have size \<open>base\<close>; so the largest and the smallest size differ by
  at most 1.
\<close>

theorem partition_balance:
  assumes "2 \<le> K"
  shows "map task_size (partition_step N K) =
           replicate (N mod K) (N div K + 1) @ replicate (K - N mod K) (N div K)
       \<and> Max (set (map task_size (partition_step N K)))
           - Min (set (map task_size (partition_step N K))) \<le> 1"
proof
  from assms have K: "0 < K" by simp
  show sizes: "map task_size (partition_step N K) =
           replicate (N mod K) (N div K + 1) @ replicate (K - N mod K) (N div K)"
    using K by (rule partition_step_sizes)
  let ?S = "set (map task_size (partition_step N K))"
  have fin: "finite ?S" by simp
  have ne: "?S \<noteq> {}"
    using K by (simp add: partition_step_closed)
  have bounds: "N div K \<le> s \<and> s \<le> N div K + 1" if "s \<in> ?S" for s
    using that unfolding sizes by (auto split: if_splits)
  have "Max ?S \<le> N div K + 1"
    using fin ne bounds by (simp add: Max_le_iff del: set_map)
  moreover have "N div K \<le> Min ?S"
    using fin ne bounds by (simp add: Min_ge_iff del: set_map)
  ultimately show "Max ?S - Min ?S \<le> 1" by simp
qed

theorem partition_balance_witness:
  "(2::nat) \<le> 3 \<and> map task_size (partition_step 10 3) = [4, 3, 3]
   \<and> Max {4, 3, 3} - Min {4, 3, 3::nat} \<le> 1"
  using partition_balance [of 3 10]
  by (simp add: partition_step_10_3 task_size_def)

lemma empty_chunk_count:
  assumes "chunk_bound c r (Suc k) \<le> chunk_bound c r k"
  shows "chunk_count xs pred c r k = 0"
  using assms by (simp add: chunk_count_def subrange_def count_if_def)

lemma trailing_results_zero:
  assumes "length xs < K"
  shows "drop (length xs) (results_after_join xs pred K) = replicate (K - length xs) 0"
proof (rule nth_equalityI)
  show "length (drop (length xs) (results_after_join xs pred K)) = length (replicate (K - length xs) (0::nat))"
    by (simp add: results_after_join_closed)
  fix i
  assume "i < length (drop (length xs) (results_after_join xs pred K))"
  then have i: "length xs + i < K" by (simp add: results_after_join_closed)
  have "chunk_bound (length xs div K) (length xs mod K) (Suc (length xs + i))
      \<le> chunk_bound (length xs div K) (length xs mod K) (length xs + i)"
    using assms by (simp add: chunk_bound_def)
  then have "chunk_count xs pred (length xs div K) (length xs mod K) (length xs + i) = 0"
    by (rule empty_chunk_count)
  with i show "drop (length xs) (results_after_join xs pred K) ! i = replicate (K - length xs) 0 ! i"
    by (simp add: results_after_join_closed)
qed

section \<open>The count\<close>

text \<open>
  Claim C1. For every sequence, every pure predicate and every worker count \<open>K \<ge> 1\<close>
  (also when \<open>K\<close> exceeds the length of the sequence), \<open>parallel_count_if_custom\<close> with
  \<open>K\<close> workers returns what it returns with one worker, which is the count of a sequential
  scan: the number of elements for which the predicate is true.
\<close>

theorem parallel_count_if_custom_correct:
  assumes "1 \<le> K"
  shows "parallel_count_if_custom xs pred K = parallel_count_if_custom xs pred 1
       \<and> parallel_count_if_custom xs pred 1 = count_if xs pred
       \<and> count_if xs pred = length (filter pred xs)"
  by (simp add: parallel_count_if_custom_filter count_if_filter)

theorem parallel_count_if_custom_correct_witness:
  "(1::nat) \<le> 3 \<and> parallel_count_if_custom [0, 1, 2, 3, 4, 5, 6, 7, 8, 9] PredCheap 3 = 5
   \<and> parallel_count_if_custom [0, 1, 2, 3, 4, 5, 6, 7, 8, 9] PredCheap 1 = 5"
  using parallel_count_if_custom_correct [of 3 "[0, 1, 2, 3, 4, 5, 6, 7, 8, 9]" PredCheap]
  by (simp add: PredCheap_def)

text \<open>
  Claim C4. With a worker count of 0 or 1 the call is no error: it returns the result of
  one \<^verbatim>\<open>std::count_if\<close> over the whole sequence.
\<close>

theorem degenerate_K_sequential:
  assumes "K \<le> 1"
  shows "parallel_count_if_custom xs pred K = count_if xs pred"
proof (cases xs)
  case Nil
  then show ?thesis by (simp add: parallel_count_if_custom_def count_if_def)
next
  case (Cons x ys)
  with assms show ?thesis by (simp add: parallel_count_if_custom_def)
qed

theorem degenerate_K_sequential_witness:
  "(0::nat) \<le> 1 \<and> parallel_count_if_custom [0, 1, 2, 3, 4, 5, 6, 7, 8, 9] PredCheap 0 = 5"
  using degenerate_K_sequential [of 0 "[0, 1, 2, 3, 4, 5, 6, 7, 8, 9]" PredCheap]
  by (simp add: count_if_def PredCheap_def)

text \<open>
  Claim C5. Over the empty sequence the count is 0, for every predicate and every worker
  count.
\<close>

theorem empty_input_zero: "parallel_count_if_custom [] pred K = 0"
  by (simp add: parallel_count_if_custom_def)

text \<open>
  Claim C10. The count returned is at most the length of the sequence (and, a natural
  number, not negative), and the count that each thread stores is at most the size of the
  thread's chunk.
\<close>

theorem count_bounded:
  "parallel_count_if_custom xs pred K \<le> length xs
   \<and> list_all2 (\<le>) (results_after_join xs pred K) (map task_size (partition_step (length xs) K))"
proof
  show "parallel_count_if_custom xs pred K \<le> length xs"
    by (simp add: parallel_count_if_custom_filter)
  show "list_all2 (\<le>) (results_after_join xs pred K)
          (map task_size (partition_step (length xs) K))"
    by (simp add: list_all2_conv_all_nth results_after_join_closed partition_step_closed
        task_size_def chunk_count_le)
qed

section \<open>More workers than elements\<close>

text \<open>
  Claim C6. With more workers than elements, \<open>K > N\<close>, the first \<open>N\<close> partitions have one
  element each and the trailing \<open>K - N\<close> are empty; the threads of the empty partitions
  store 0, and the total is the sequential count. For \<open>N = 7\<close> and \<open>K = 10\<close> these are 7
  partitions of size 1 followed by 3 empty ones.
\<close>

theorem more_workers_than_elements:
  assumes "length xs < K"
  shows "map task_size (partition_step (length xs) K) =
           replicate (length xs) 1 @ replicate (K - length xs) 0
       \<and> drop (length xs) (results_after_join xs pred K) = replicate (K - length xs) 0
       \<and> parallel_count_if_custom xs pred K = count_if xs pred
       \<and> map task_size (partition_step 7 10) = [1, 1, 1, 1, 1, 1, 1, 0, 0, 0]"
proof (intro conjI)
  from assms have K: "0 < K" by simp
  show "map task_size (partition_step (length xs) K) =
           replicate (length xs) 1 @ replicate (K - length xs) 0"
    using partition_step_sizes [OF K, of "length xs"] assms by simp
  show "drop (length xs) (results_after_join xs pred K) = replicate (K - length xs) 0"
    using assms by (rule trailing_results_zero)
  show "parallel_count_if_custom xs pred K = count_if xs pred"
    by (simp add: parallel_count_if_custom_filter count_if_filter)
  show "map task_size (partition_step 7 10) = [1, 1, 1, 1, 1, 1, 1, 0, 0, 0]"
    by code_simp
qed

lemma results_7_10:
  "results_after_join [3, 1, 4, 1, 5, 9, 2] PredCheap 10 = [0, 0, 1, 0, 0, 0, 1, 0, 0, 0]"
  by code_simp

lemma count_7_10: "parallel_count_if_custom [3, 1, 4, 1, 5, 9, 2] PredCheap 10 = 2"
  by code_simp

theorem more_workers_than_elements_witness:
  "length [3, 1, 4, 1, 5, 9, 2 :: 32 word] < 10
   \<and> results_after_join [3, 1, 4, 1, 5, 9, 2] PredCheap 10 = [0, 0, 1, 0, 0, 0, 1, 0, 0, 0]
   \<and> parallel_count_if_custom [3, 1, 4, 1, 5, 9, 2] PredCheap 10 = 2"
  using more_workers_than_elements [of "[3, 1, 4, 1, 5, 9, 2]" 10 PredCheap]
  by (simp add: results_7_10 count_7_10)

section \<open>Independence of the schedule\<close>

lemma thread_ok_other:
  assumes "thread_ok pred results k c w" "k \<noteq> j"
  shows "thread_ok pred (results[j := v]) k c w"
  using assms by (simp add: thread_ok_def split: worker.splits)

lemma pool_inv_step:
  assumes "pool_inv pred cs st"
  shows "pool_inv pred cs (sched_step pred j st)"
proof (cases "j < length (pool_threads st)")
  case False
  with assms show ?thesis by (simp add: sched_step_def)
next
  case True
  from assms have len: "length (pool_threads st) = length cs" "length (pool_results st) = length cs"
    and ok: "\<And>k. k < length cs \<Longrightarrow> thread_ok pred (pool_results st) k (cs ! k) (pool_threads st ! k)"
    by (simp_all add: pool_inv_def)
  from True len have j: "j < length cs" by simp
  show ?thesis
  proof (cases "pool_threads st ! j")
    case Finished
    then have "sched_step pred j st = st"
      using True list_update_id [of "pool_threads st" j] by (simp add: sched_step_def)
    with assms show ?thesis by simp
  next
    case (Running i ys ret)
    with ok [OF j] have ij: "i = j" and cnt: "ret + length (filter pred ys) = cs ! j"
      by (simp_all add: thread_ok_def)
    show ?thesis
    proof (cases ys)
      case Nil
      with Running True have st': "sched_step pred j st =
          \<lparr>pool_threads = (pool_threads st)[j := Finished], pool_results = (pool_results st)[j := ret]\<rparr>"
        by (simp add: sched_step_def ij)
      have "thread_ok pred ((pool_results st)[j := ret]) k (cs ! k) ((pool_threads st)[j := Finished] ! k)"
        if k: "k < length cs" for k
      proof (cases "k = j")
        case True
        with j len cnt Nil show ?thesis by (simp add: thread_ok_def)
      next
        case False
        with ok [OF k] show ?thesis by (simp add: thread_ok_other)
      qed
      with len show ?thesis by (simp add: st' pool_inv_def)
    next
      case (Cons y zs)
      with Running True have st': "sched_step pred j st =
          \<lparr>pool_threads = (pool_threads st)[j := Running j zs (if pred y then ret + 1 else ret)],
           pool_results = pool_results st\<rparr>"
        by (simp add: sched_step_def ij)
      have "thread_ok pred (pool_results st) k (cs ! k)
              ((pool_threads st)[j := Running j zs (if pred y then ret + 1 else ret)] ! k)"
        if k: "k < length cs" for k
      proof (cases "k = j")
        case True
        with j len cnt Cons show ?thesis by (auto simp: thread_ok_def)
      next
        case False
        with ok [OF k] show ?thesis by simp
      qed
      with len show ?thesis by (simp add: st' pool_inv_def)
    qed
  qed
qed

lemma pool_inv_run:
  "pool_inv pred cs st \<Longrightarrow> pool_inv pred cs (run_schedule pred sched st)"
  by (induction sched arbitrary: st) (simp_all add: pool_inv_step)

lemma pool_inv_joined:
  assumes "pool_inv pred cs st" "all_joined st"
  shows "pool_results st = cs"
proof (rule nth_equalityI)
  from assms(1) show "length (pool_results st) = length cs" by (simp add: pool_inv_def)
  fix j
  assume "j < length (pool_results st)"
  with assms(1) have j: "j < length cs" and jt: "j < length (pool_threads st)"
    by (simp_all add: pool_inv_def)
  from assms(2) jt have "pool_threads st ! j = Finished"
    by (simp add: all_joined_def list_all_length)
  moreover from assms(1) j have "thread_ok pred (pool_results st) j (cs ! j) (pool_threads st ! j)"
    by (simp add: pool_inv_def)
  ultimately show "pool_results st ! j = cs ! j" by (simp add: thread_ok_def)
qed

lemma pool_inv_start:
  "pool_inv pred (results_after_join xs pred K)
     \<lparr>pool_threads = map (start_thread xs) (partition_step (length xs) K),
      pool_results = replicate K 0\<rparr>"
  by (simp add: pool_inv_def results_after_join_closed partition_step_closed start_thread_def
      thread_ok_def chunk_count_def count_if_filter)

lemma sched_sound:
  assumes "parallel_count_if_custom_sched xs pred K sched = Some r"
  shows "r = parallel_count_if_custom xs pred K"
proof (cases "length xs \<le> 0 \<or> K \<le> 1")
  case True
  with assms show ?thesis
    by (auto simp: parallel_count_if_custom_sched_def parallel_count_if_custom_def)
next
  case False
  let ?st = "run_schedule pred sched
      \<lparr>pool_threads = map (start_thread xs) (partition_step (length xs) K),
       pool_results = replicate K 0\<rparr>"
  from False assms have joined: "all_joined ?st" and r: "r = accumulate (pool_results ?st) 0"
    by (simp_all add: parallel_count_if_custom_sched_def Let_def split: if_splits)
  have "pool_inv pred (results_after_join xs pred K) ?st"
    by (intro pool_inv_run pool_inv_start)
  from pool_inv_joined [OF this joined] have "pool_results ?st = results_after_join xs pred K" .
  with False r show ?thesis
    by (simp add: parallel_count_if_custom_def)
qed

lemma length_threads_step [simp]:
  "length (pool_threads (sched_step pred j st)) = length (pool_threads st)"
  by (simp add: sched_step_def split: prod.splits)

lemma length_threads_run [simp]:
  "length (pool_threads (run_schedule pred sched st)) = length (pool_threads st)"
  by (induction sched arbitrary: st) simp_all

lemma steps_left_thread_step:
  "steps_left (fst (thread_step pred w results)) = steps_left w - 1"
  by (cases "(pred, w, results)" rule: thread_step.cases) (simp_all add: steps_left_def)

lemma steps_left_step:
  assumes "k < length (pool_threads st)"
  shows "steps_left (pool_threads (sched_step pred j st) ! k)
       = steps_left (pool_threads st ! k) - (if j = k then 1 else 0)"
proof (cases "j < length (pool_threads st)")
  case False
  with assms show ?thesis by (auto simp: sched_step_def)
next
  case True
  obtain w results where ts: "thread_step pred (pool_threads st ! j) (pool_results st) = (w, results)"
    by (cases "thread_step pred (pool_threads st ! j) (pool_results st)")
  then have "steps_left w = steps_left (pool_threads st ! j) - 1"
    using steps_left_thread_step [of pred "pool_threads st ! j" "pool_results st"] by simp
  with True assms ts show ?thesis
    by (simp add: sched_step_def nth_list_update)
qed

lemma steps_left_run:
  "k < length (pool_threads st) \<Longrightarrow>
   steps_left (pool_threads (run_schedule pred sched st) ! k)
     = steps_left (pool_threads st ! k) - count_list sched k"
  by (induction sched arbitrary: st) (simp_all add: steps_left_step)

lemma steps_left_0: "steps_left w = 0 \<longleftrightarrow> w = Finished"
  by (simp add: steps_left_def split: worker.splits)

lemma all_joined_steps_left:
  "all_joined st \<longleftrightarrow> (\<forall>k < length (pool_threads st). steps_left (pool_threads st ! k) = 0)"
  by (simp add: all_joined_def list_all_length steps_left_0)

lemma chunk_within:
  assumes "k < K"
  shows "chunk_bound (n div K) (n mod K) (Suc k) \<le> n"
proof -
  from assms have "chunk_bound (n div K) (n mod K) (Suc k) \<le> chunk_bound (n div K) (n mod K) K"
    by (intro chunk_bound_mono) simp
  with assms show ?thesis by (simp add: chunk_bound_last)
qed

lemma length_chunk:
  assumes "k < K"
  shows "length (subrange xs (chunk_bound (length xs div K) (length xs mod K) k)
                   (chunk_bound (length xs div K) (length xs mod K) (Suc k)))
       = chunk_bound (length xs div K) (length xs mod K) (Suc k)
           - chunk_bound (length xs div K) (length xs mod K) k"
  using chunk_within [OF assms, of "length xs"] by (simp add: subrange_def)

lemma steps_left_start:
  assumes "k < K"
  shows "steps_left (map (start_thread xs) (partition_step (length xs) K) ! k)
       = task_size (partition_step (length xs) K ! k) + 1"
  using assms
  by (simp add: length_partition_step nth_partition_step start_thread_def steps_left_def
      task_size_def length_chunk)

lemma run_joined_iff:
  "all_joined (run_schedule pred sched
      \<lparr>pool_threads = map (start_thread xs) (partition_step (length xs) K),
       pool_results = replicate K 0\<rparr>)
   \<longleftrightarrow> enough_steps (length xs) K sched"
proof -
  have "all_joined (run_schedule pred sched
      \<lparr>pool_threads = map (start_thread xs) (partition_step (length xs) K),
       pool_results = replicate K 0\<rparr>)
    \<longleftrightarrow> (\<forall>k<K. steps_left (map (start_thread xs) (partition_step (length xs) K) ! k)
                  - count_list sched k = 0)"
    by (simp add: all_joined_steps_left steps_left_run length_partition_step)
  also have "\<dots> \<longleftrightarrow> (\<forall>k<K. task_size (partition_step (length xs) K ! k) + 1 \<le> count_list sched k)"
    by (simp add: steps_left_start)
  also have "\<dots> \<longleftrightarrow> enough_steps (length xs) K sched"
    by (simp add: enough_steps_def list_all_length length_partition_step nth_partition_step)
  finally show ?thesis .
qed

lemma sched_returns:
  "parallel_count_if_custom_sched xs pred K sched =
     (if length xs \<le> 0 \<or> K \<le> 1 \<or> enough_steps (length xs) K sched
      then Some (parallel_count_if_custom xs pred K) else None)"
proof (cases "parallel_count_if_custom_sched xs pred K sched")
  case None
  then show ?thesis
    by (simp add: parallel_count_if_custom_sched_def Let_def run_joined_iff split: if_splits)
next
  case (Some r)
  from sched_sound [OF this] Some show ?thesis
    by (auto simp add: parallel_count_if_custom_sched_def Let_def run_joined_iff split: if_splits)
qed

lemma count_list_concat_replicate:
  "count_list (concat (replicate m ys)) k = m * count_list ys k"
  by (induction m) (simp_all add: count_list_append)

lemma count_list_upt: "count_list [0..<K] k = (if k < K then 1 else 0)"
  by (induction K) auto

lemma round_robin_enough: "enough_steps n K (round_robin n K)"
proof -
  have "chunk_bound (n div K) (n mod K) (Suc k) - chunk_bound (n div K) (n mod K) k \<le> n"
    if "k < K" for k
    using chunk_within [OF that, of n] by simp
  then show ?thesis
    by (simp add: enough_steps_def list_all_length length_partition_step nth_partition_step
        task_size_def round_robin_def count_list_concat_replicate count_list_upt)
qed

text \<open>
  Executions exist: the round-robin schedule, which interleaves all the threads, ends with
  every thread joined and returns the count of the first model.
\<close>

lemma round_robin_returns:
  "parallel_count_if_custom_sched xs pred K (round_robin (length xs) K)
     = Some (parallel_count_if_custom xs pred K)"
  by (simp add: sched_returns round_robin_enough)

text \<open>
  Claim C7. For every sequence, pure predicate and \<open>K > 1\<close>, any two executions of
  \<open>parallel_count_if_custom\<close> on the same inputs return the same count, however the \<open>K\<close>
  threads are scheduled and interleaved. An execution is a schedule after which all the
  threads have ended; the threads interleave step by step, a step being one iteration of
  the counting loop or the store into the thread's own slot. (The threads share the
  sequence and the predicate read-only and write distinct elements of \<^verbatim>\<open>results\<close>, so
  the program has no data race and its executions are such interleavings.)
\<close>

theorem schedule_independent:
  assumes "1 < K"
    and "parallel_count_if_custom_sched xs pred K sched1 = Some r1"
    and "parallel_count_if_custom_sched xs pred K sched2 = Some r2"
  shows "r1 = r2 \<and> r1 = parallel_count_if_custom xs pred K"
  using sched_sound [OF assms(2)] sched_sound [OF assms(3)] by simp

lemma sched_example_1:
  "parallel_count_if_custom_sched [3, 1, 4, 1, 5 :: 32 word] PredCheap 2 [0, 0, 0, 0, 1, 1, 1] = Some 1"
  by code_simp

lemma sched_example_2:
  "parallel_count_if_custom_sched [3, 1, 4, 1, 5 :: 32 word] PredCheap 2 [1, 0, 1, 0, 0, 1, 0] = Some 1"
  by code_simp

theorem schedule_independent_witness:
  "(1::nat) < 2
   \<and> parallel_count_if_custom_sched [3, 1, 4, 1, 5 :: 32 word] PredCheap 2 [0, 0, 0, 0, 1, 1, 1] = Some 1
   \<and> parallel_count_if_custom_sched [3, 1, 4, 1, 5 :: 32 word] PredCheap 2 [1, 0, 1, 0, 0, 1, 0] = Some 1
   \<and> parallel_count_if_custom [3, 1, 4, 1, 5 :: 32 word] PredCheap 2 = 1"
proof -
  have K: "(1::nat) < 2" by simp
  from schedule_independent [OF K sched_example_1 sched_example_2]
  have "parallel_count_if_custom [3, 1, 4, 1, 5 :: 32 word] PredCheap 2 = 1" by simp
  with K sched_example_1 sched_example_2 show ?thesis by (intro conjI)
qed

section \<open>A predicate that throws: what the call comes to\<close>

lemma count_if_loop_exn_None:
  "count_if_loop_exn xs pred ret = None \<longleftrightarrow> (\<exists>x\<in>set xs. pred x = None)"
  by (induction xs arbitrary: ret) (auto split: option.splits)

lemma count_if_exn_None:
  "count_if_exn xs pred = None \<longleftrightarrow> (\<exists>x\<in>set xs. pred x = None)"
  by (simp add: count_if_exn_def count_if_loop_exn_None)

lemma count_if_loop_exn_total:
  "count_if_loop_exn xs (\<lambda>x. Some (pred x)) ret = Some (count_if_loop xs pred ret)"
  by (induction xs arbitrary: ret) simp_all

lemma join_all_exn_total:
  "join_all_exn xs (\<lambda>x. Some (pred x)) ts results = Some (join_all xs pred ts results)"
  by (induction ts arbitrary: results)
    (simp_all add: run_task_exn_def run_task_def count_if_exn_def count_if_def
      count_if_loop_exn_total)

lemma exn_model_agrees:
  "parallel_count_if_custom_exn xs (\<lambda>x. Some (pred x)) K
     = Returned (parallel_count_if_custom xs pred K)"
  by (simp add: parallel_count_if_custom_exn_def parallel_count_if_custom_def Let_def
      count_if_exn_def count_if_def count_if_loop_exn_total join_all_exn_total
      results_after_join_def)

lemma join_all_exn_None:
  "join_all_exn xs pred ts results = None \<longleftrightarrow>
     (\<exists>t\<in>set ts. count_if_exn (subrange xs (task_start t) (task_end t)) pred = None)"
  by (induction ts arbitrary: results) (auto simp: run_task_exn_def split: option.splits)

lemma set_chunks:
  "(\<Union>k\<in>{0..<m}. set (subrange xs (chunk_bound c r k) (chunk_bound c r (Suc k))))
     = set (take (chunk_bound c r m) xs)"
proof (induction m)
  case 0
  then show ?case by (simp add: chunk_bound_0)
next
  case (Suc m)
  have "chunk_bound c r m \<le> chunk_bound c r (Suc m)"
    by (rule chunk_bound_mono) simp
  from subrange_append [OF this, of xs] Suc show ?case
    by (simp add: atLeast0_lessThan_Suc Un_commute)
qed

lemma set_partition_chunks:
  assumes "0 < K"
  shows "(\<Union>t\<in>set (partition_step (length xs) K). set (subrange xs (task_start t) (task_end t)))
       = set xs"
proof -
  have "(\<Union>t\<in>set (partition_step (length xs) K). set (subrange xs (task_start t) (task_end t)))
      = (\<Union>k\<in>{0..<K}. set (subrange xs (chunk_bound (length xs div K) (length xs mod K) k)
                                 (chunk_bound (length xs div K) (length xs mod K) (Suc k))))"
    by (simp add: partition_step_closed)
  with assms show ?thesis by (simp add: set_chunks chunk_bound_last)
qed

lemma threads_terminate_iff:
  assumes "0 < K"
  shows "join_all_exn xs pred (partition_step (length xs) K) results = None
       \<longleftrightarrow> (\<exists>x\<in>set xs. pred x = None)"
proof -
  have "join_all_exn xs pred (partition_step (length xs) K) results = None \<longleftrightarrow>
      (\<exists>x \<in> (\<Union>t\<in>set (partition_step (length xs) K).
                set (subrange xs (task_start t) (task_end t))). pred x = None)"
    by (simp add: join_all_exn_None count_if_exn_None)
  then show ?thesis by (simp only: set_partition_chunks [OF assms])
qed

text \<open>
  Claim C8, as the code has it. If the predicate throws at some element of the sequence,
  then with \<open>K \<le> 1\<close> the exception reaches the caller out of \<^verbatim>\<open>std::count_if\<close>, and with
  \<open>K \<ge> 2\<close> it leaves the function of a thread, which terminates the program: no failure
  is handed to the caller. In neither case is a count returned.
\<close>

theorem throwing_predicate:
  assumes "\<exists>x\<in>set xs. pred x = None"
  shows "parallel_count_if_custom_exn xs pred K = (if K \<le> 1 then Thrown else Terminated)"
proof -
  from assms have ne: "\<not> length xs \<le> 0" by auto
  show ?thesis
  proof (cases "K \<le> 1")
    case True
    from assms have "count_if_exn xs pred = None" by (simp add: count_if_exn_None)
    with True ne show ?thesis by (simp add: parallel_count_if_custom_exn_def)
  next
    case False
    then have "0 < K" by simp
    from threads_terminate_iff [OF this, of xs pred "replicate K 0"] assms
    have "join_all_exn xs pred (partition_step (length xs) K) (replicate K 0) = None" by simp
    with False ne show ?thesis by (simp add: parallel_count_if_custom_exn_def)
  qed
qed

lemma exn_example_2:
  "parallel_count_if_custom_exn [2, 3, 4 :: nat] [2 \<mapsto> True, 4 \<mapsto> False] 2 = Terminated"
  by code_simp

text \<open>
  Claim C8 as the specification states it, that the failure is propagated to the caller,
  fails with two threads: the predicate below throws at 3, and the call ends in
  \<^verbatim>\<open>std::terminate\<close>.
\<close>

theorem throwing_predicate_not_propagated:
  "[2 \<mapsto> True, 4 \<mapsto> False] (3 :: nat) = None
   \<and> parallel_count_if_custom_exn [2, 3, 4 :: nat] [2 \<mapsto> True, 4 \<mapsto> False] 2 = Terminated
   \<and> parallel_count_if_custom_exn [2, 3, 4 :: nat] [2 \<mapsto> True, 4 \<mapsto> False] 2 \<noteq> Thrown"
proof (intro conjI)
  show "[2 \<mapsto> True, 4 \<mapsto> False] (3 :: nat) = None" by simp
  show "parallel_count_if_custom_exn [2, 3, 4 :: nat] [2 \<mapsto> True, 4 \<mapsto> False] 2 = Terminated"
    by (rule exn_example_2)
  then show "parallel_count_if_custom_exn [2, 3, 4 :: nat] [2 \<mapsto> True, 4 \<mapsto> False] 2 \<noteq> Thrown"
    by (simp only: outcome.distinct not_False_eq_True)
qed

theorem throwing_predicate_witness:
  "[2 \<mapsto> True, 4 \<mapsto> False] (3 :: nat) = None
   \<and> parallel_count_if_custom_exn [2, 3, 4 :: nat] [2 \<mapsto> True, 4 \<mapsto> False] 1 = Thrown
   \<and> parallel_count_if_custom_exn [2, 3, 4 :: nat] [2 \<mapsto> True, 4 \<mapsto> False] 3 = Terminated"
proof (intro conjI)
  show "[2 \<mapsto> True, 4 \<mapsto> False] (3 :: nat) = None" by simp
  have throws: "\<exists>x\<in>set [2, 3, 4 :: nat]. [2 \<mapsto> True, 4 \<mapsto> False] x = None" by simp
  have "parallel_count_if_custom_exn [2, 3, 4 :: nat] [2 \<mapsto> True, 4 \<mapsto> False] 1
      = (if (1::nat) \<le> 1 then Thrown else Terminated)"
    by (rule throwing_predicate [OF throws])
  then show "parallel_count_if_custom_exn [2, 3, 4 :: nat] [2 \<mapsto> True, 4 \<mapsto> False] 1 = Thrown"
    by (simp only: le_refl if_True)
  have "parallel_count_if_custom_exn [2, 3, 4 :: nat] [2 \<mapsto> True, 4 \<mapsto> False] 3
      = (if (3::nat) \<le> 1 then Thrown else Terminated)"
    by (rule throwing_predicate [OF throws])
  moreover have "\<not> (3::nat) \<le> 1" by simp
  ultimately show "parallel_count_if_custom_exn [2, 3, 4 :: nat] [2 \<mapsto> True, 4 \<mapsto> False] 3 = Terminated"
    by (simp only: if_False)
qed

section \<open>The median of the measured durations\<close>







lemma time_repeat_negative: "reps < 0 \<Longrightarrow> time_repeat f reps w = Inl LengthError"
  by (simp add: time_repeat_def)






end
